theory Spec2Isabelle
  imports Main "HOL-Library.Sublist" "HOL-Library.Word"
begin

unbundle bit_operations_syntax

section \<open>Closest-volume resolution of pkg/os/volume/api.go\<close>

text \<open>
  Go strings are byte sequences; they are modelled as \<open>string\<close> (a list of bytes), so
  \<open>length\<close> is Go's \<open>len\<close>, \<open>take 1 s\<close> is the slice \<open>s[0:1]\<close> once \<open>s\<close> is known to be
  non-empty, and \<open>prefix p s\<close> is \<open>strings.HasPrefix(s, p)\<close>.
\<close>

subsection \<open>Strings and the canonical prefix\<close>

abbreviation (input) BS :: char where
  "BS \<equiv> CHR 0x5C"

text \<open>
  The local \<open>prefix\<close> of \<open>ensureVolumePrefix\<close>: the four bytes backslash, backslash, ?,
  backslash.
\<close>

definition volume_prefix :: string where
  "volume_prefix = [BS, BS, CHR ''?'', BS]"

definition ensureVolumePrefix :: "string \<Rightarrow> string" where
  "ensureVolumePrefix volume =
     (if \<not> prefix volume_prefix volume then volume_prefix @ volume else volume)"

text \<open>
  The number of positions of \<open>s\<close> at which \<open>p\<close> starts, overlapping occurrences included;
  it is what "the prefix is present exactly once" is measured with.
\<close>

fun occurrences :: "string \<Rightarrow> string \<Rightarrow> nat" where
  "occurrences p [] = (if p = [] then 1 else 0)"
| "occurrences p (x # xs) = (if prefix p (x # xs) then 1 else 0) + occurrences p xs"

subsection \<open>VolumeRegexp\<close>

text \<open>
  \<open>VolumeRegexp = regexp.MustCompile(`Volume\{[\w-]*\}`)\<close>. The expression is a sequence of
  literal bytes and one starred character class, so a regular expression is modelled as a
  list of such items and matched by backtracking. The Perl class \<open>\w\<close> of Go's regexp
  syntax is \<open>[0-9A-Za-z_]\<close> (bytes 0x30-0x39, 0x41-0x5A, 0x61-0x7A and 0x5F); the class of
  the expression adds the hyphen. All bytes of the expression are ASCII, so matching bytes
  agrees with matching UTF-8 runes.
\<close>

datatype item = Lit char | StarClass "char \<Rightarrow> bool"

definition word_char :: "char \<Rightarrow> bool" where
  "word_char c \<longleftrightarrow>
     (let b = (of_char c :: nat) in
        (0x30 \<le> b \<and> b \<le> 0x39) \<or> (0x41 \<le> b \<and> b \<le> 0x5A) \<or>
        (0x61 \<le> b \<and> b \<le> 0x7A) \<or> b = 0x5F)"

definition word_or_hyphen :: "char \<Rightarrow> bool" where
  "word_or_hyphen c \<longleftrightarrow> word_char c \<or> c = CHR ''-''"

fun match_here :: "item list \<Rightarrow> string \<Rightarrow> bool" where
  "match_here [] s = True"
| "match_here (Lit c # r) [] = False"
| "match_here (Lit c # r) (x # xs) = (x = c \<and> match_here r xs)"
| "match_here (StarClass p # r) [] = match_here r []"
| "match_here (StarClass p # r) (x # xs) =
     (match_here r (x # xs) \<or> (p x \<and> match_here (StarClass p # r) xs))"

text \<open>\<open>Regexp.Match\<close> is not anchored: it reports a match starting at any position.\<close>

fun Match :: "item list \<Rightarrow> string \<Rightarrow> bool" where
  "Match r [] = match_here r []"
| "Match r (x # xs) = (match_here r (x # xs) \<or> Match r xs)"

definition VolumeRegexp :: "item list" where
  "VolumeRegexp = map Lit ''Volume{'' @ [StarClass word_or_hyphen, Lit (CHR ''}'')]"

subsection \<open>Errors, results and the host\<close>

text \<open>
  An error of the host is an error value that \<open>os.Lstat\<close> or the run of a command
  returns. The errors of the package are such an error passed on (\<open>HostError\<close>) and the
  \<open>fmt.Errorf\<close> calls of the source, with their arguments.
\<close>

datatype os_error = OsError string

datatype error =
    HostError os_error
  | UnexpectedStderr string string
  | InvalidDriveLetter string
  | ClosestVolumeNotFound string
  | ClosestVolumeError string error
  | GetTargetError string string "os_error option"
  | VolumeForMountError string error

text \<open>
  A Go function of type \<open>(string, error)\<close> returns a pair; \<open>None\<close> is the nil error.
  A call that panics returns nothing, which is the outcome \<open>Panic\<close>.
\<close>

type_synonym ret = "string \<times> error option"

datatype outcome = Return ret | Panic

text \<open>
  What a finished powershell process hands back: the error of \<open>Run\<close>, \<open>Output\<close> or
  \<open>CombinedOutput\<close>, the bytes written to standard output and standard error, and the
  two streams interleaved as \<open>CombinedOutput\<close> collects them.
\<close>

record cmd_result =
  run_err :: "os_error option"
  out_bytes :: string
  err_bytes :: string
  combined_bytes :: string

text \<open>
  The host is everything the code calls outside the repository: \<open>os.Lstat\<close> (the error,
  or the \<open>FileMode\<close> of the entry), the powershell process started for a command line,
  \<open>filepath.Dir\<close> and \<open>strings.TrimSpace\<close>. The two library functions are parameters.
  Each query is a function of its argument: the file system is read as it is when
  the operation is called, and every answer the host can give is a value of these types.
\<close>

record host =
  os_Lstat :: "string \<Rightarrow> os_error + 32 word"
  powershell :: "string \<Rightarrow> cmd_result"
  filepath_Dir :: "string \<Rightarrow> string"
  strings_TrimSpace :: "string \<Rightarrow> string"

text \<open>\<open>os.ModeSymlink\<close> is the fifth mode bit from the top: \<open>1 << (32 - 1 - 4)\<close>.\<close>

definition ModeSymlink :: "32 word" where
  "ModeSymlink = push_bit 27 1"

text \<open>
  The calls made on the host are logged in order: a metadata query, the process run by
  \<open>dereferenceSymlink\<close>, the process run by \<open>getVolumeForDriveLetter\<close>.
\<close>

datatype event = Lstat_call string | Symlink_resolve string | Drive_letter_lookup string

fun is_Lstat_call :: "event \<Rightarrow> bool" where
  "is_Lstat_call (Lstat_call p) = True"
| "is_Lstat_call e = False"

fun is_Symlink_resolve :: "event \<Rightarrow> bool" where
  "is_Symlink_resolve (Symlink_resolve p) = True"
| "is_Symlink_resolve e = False"

fun is_Drive_letter_lookup :: "event \<Rightarrow> bool" where
  "is_Drive_letter_lookup (Drive_letter_lookup p) = True"
| "is_Drive_letter_lookup e = False"

definition lstat_calls :: "event list \<Rightarrow> nat" where
  "lstat_calls evs = length (filter is_Lstat_call evs)"

definition symlink_resolutions :: "event list \<Rightarrow> nat" where
  "symlink_resolutions evs = length (filter is_Symlink_resolve evs)"

definition drive_letter_lookups :: "event list \<Rightarrow> nat" where
  "drive_letter_lookups evs = length (filter is_Drive_letter_lookup evs)"

subsection \<open>dereferenceSymlink and getVolumeForDriveLetter\<close>

definition get_item_target_cmd :: "string \<Rightarrow> string" where
  "get_item_target_cmd path = ''(Get-Item -Path '' @ path @ '').Target''"

definition dereferenceSymlink :: "host \<Rightarrow> string \<Rightarrow> ret \<times> event list" where
  "dereferenceSymlink h path =
     (let cmd = get_item_target_cmd path;
          r = powershell h cmd
      in case run_err r of
           Some err \<Rightarrow> (([], Some (HostError err)), [Symlink_resolve path])
         | None \<Rightarrow>
             if length (err_bytes r) \<noteq> 0
             then (([], Some (UnexpectedStderr cmd (err_bytes r))), [Symlink_resolve path])
             else ((strings_TrimSpace h (out_bytes r), None), [Symlink_resolve path]))"

definition get_partition_volume_cmd :: "string \<Rightarrow> string" where
  "get_partition_volume_cmd path =
     ''(Get-Partition -DriveLetter '' @ path @ '' | Get-Volume).UniqueId''"

definition getVolumeForDriveLetter :: "host \<Rightarrow> string \<Rightarrow> ret \<times> event list" where
  "getVolumeForDriveLetter h path =
     (if length path \<noteq> 1 then (([], Some (InvalidDriveLetter path)), [])
      else
        let r = powershell h (get_partition_volume_cmd path)
        in case run_err r of
             Some err \<Rightarrow> (([], Some (HostError err)), [Drive_letter_lookup path])
           | None \<Rightarrow> ((strings_TrimSpace h (out_bytes r), None), [Drive_letter_lookup path]))"

subsection \<open>findClosestVolume\<close>

text \<open>
  One pass through the body of the \<open>for\<close> loop: it either leaves the function (\<open>Done\<close>) or
  reaches the end of the body with a new \<open>candidatePath\<close> (\<open>Continue\<close>). The slice
  \<open>candidatePath[0:1]\<close> panics when \<open>candidatePath\<close> is empty.
\<close>

datatype step = Done outcome | Continue string

definition loop_body :: "host \<Rightarrow> string \<Rightarrow> step \<times> event list" where
  "loop_body h candidatePath =
     (case os_Lstat h candidatePath of
        Inl err \<Rightarrow> (Done (Return ([], Some (HostError err))), [Lstat_call candidatePath])
      | Inr mode \<Rightarrow>
          if mode AND ModeSymlink \<noteq> 0 then
            (case dereferenceSymlink h candidatePath of
               ((target, Some err), evs) \<Rightarrow>
                 (Done (Return ([], Some err)), Lstat_call candidatePath # evs)
             | ((target, None), evs) \<Rightarrow>
                 if Match VolumeRegexp target
                 then (Done (Return (ensureVolumePrefix target, None)),
                       Lstat_call candidatePath # evs)
                 else (Continue target, Lstat_call candidatePath # evs))
          else
            (let previousPath = candidatePath;
                 newPath = filepath_Dir h candidatePath
             in if previousPath = newPath then
                  (if length newPath < 1 then (Done Panic, [Lstat_call candidatePath])
                   else
                     (case getVolumeForDriveLetter h (take 1 newPath) of
                        ((target, Some err), evs) \<Rightarrow>
                          (Done (Return ([], Some err)), Lstat_call candidatePath # evs)
                      | ((target, None), evs) \<Rightarrow>
                          (Done (Return (target, None)), Lstat_call candidatePath # evs)))
                else (Continue newPath, [Lstat_call candidatePath])))"

text \<open>The loop \<open>for i := 0; i < 256; i += 1\<close> and the return after it.\<close>

function findClosestVolume_loop :: "host \<Rightarrow> string \<Rightarrow> nat \<Rightarrow> string \<Rightarrow> outcome \<times> event list" where
  "findClosestVolume_loop h path i candidatePath =
     (if i < 256 then
        (case loop_body h candidatePath of
           (Done r, evs) \<Rightarrow> (r, evs)
         | (Continue newPath, evs) \<Rightarrow>
             apsnd (\<lambda>evs'. evs @ evs') (findClosestVolume_loop h path (i + 1) newPath))
      else (Return ([], Some (ClosestVolumeNotFound path)), []))"
  by pat_completeness auto
termination
  by (relation "measure (\<lambda>(h, path, i, candidatePath). 256 - i)") auto

definition findClosestVolume :: "host \<Rightarrow> string \<Rightarrow> outcome \<times> event list" where
  "findClosestVolume h path = findClosestVolume_loop h path 0 path"

definition GetClosestVolumeIDFromTargetPath :: "host \<Rightarrow> string \<Rightarrow> outcome \<times> event list" where
  "GetClosestVolumeIDFromTargetPath h targetPath =
     (case findClosestVolume h targetPath of
        (Panic, evs) \<Rightarrow> (Panic, evs)
      | (Return (volumeString, Some err), evs) \<Rightarrow>
          (Return ([], Some (ClosestVolumeError targetPath err)), evs)
      | (Return (volumeString, None), evs) \<Rightarrow> (Return (volumeString, None), evs))"

subsection \<open>getTarget and GetVolumeIDFromTargetPath\<close>

text \<open>\<open>runExec\<close> returns the combined output of the process and its error.\<close>

definition runExec :: "host \<Rightarrow> string \<Rightarrow> string \<times> os_error option" where
  "runExec h command = (combined_bytes (powershell h command), run_err (powershell h command))"

text \<open>
  \<open>getTarget\<close> calls itself with no bound, so it is a partial function: \<open>None\<close> is a call
  that does not return.
\<close>

partial_function (option) getTarget :: "host \<Rightarrow> string \<Rightarrow> ret option" where
  "getTarget h mount =
     (let cmd = get_item_target_cmd mount;
          out = fst (runExec h cmd);
          err = snd (runExec h cmd)
      in if err \<noteq> None \<or> length out = 0
         then Some ([], Some (GetTargetError cmd out err))
         else
           let volumeString = strings_TrimSpace h out
           in if \<not> prefix ''Volume'' volumeString then getTarget h volumeString
              else Some (ensureVolumePrefix volumeString, None))"

definition GetVolumeIDFromTargetPath :: "host \<Rightarrow> string \<Rightarrow> ret option" where
  "GetVolumeIDFromTargetPath h mount =
     (case getTarget h mount of
        None \<Rightarrow> None
      | Some (volumeString, Some err) \<Rightarrow> Some ([], Some (VolumeForMountError mount err))
      | Some (volumeString, None) \<Rightarrow> Some (volumeString, None))"

subsection \<open>Vocabulary of the properties\<close>

text \<open>
  The volume shape in the words of the specification: the text \<open>Volume{\<close>, one or more
  word or hyphen characters, and \<open>}\<close>, anywhere within the string.
\<close>

definition volume_shape_as_specified :: "string \<Rightarrow> bool" where
  "volume_shape_as_specified s \<longleftrightarrow>
     (\<exists>pre tok post. s = pre @ ''Volume{'' @ tok @ ''}'' @ post \<and> tok \<noteq> [] \<and>
        (\<forall>c \<in> set tok. word_or_hyphen c))"

definition unprefixed :: "string \<Rightarrow> string" where
  "unprefixed s = (if prefix volume_prefix s then drop (length volume_prefix) s else s)"

text \<open>
  What \<open>os.Lstat\<close> says of a path: a symbolic link, or an entry that is none (a directory
  or a file); both say that the query succeeds.
\<close>

definition is_symlink :: "host \<Rightarrow> string \<Rightarrow> bool" where
  "is_symlink h p = (case os_Lstat h p of Inl err \<Rightarrow> False | Inr mode \<Rightarrow> mode AND ModeSymlink \<noteq> 0)"

definition is_plain :: "host \<Rightarrow> string \<Rightarrow> bool" where
  "is_plain h p = (case os_Lstat h p of Inl err \<Rightarrow> False | Inr mode \<Rightarrow> mode AND ModeSymlink = 0)"

text \<open>
  A chain of symbolic links: \<open>p\<close> is a link that resolves to the first target, which is
  a link that resolves to the second, and so on; the last target is where the chain ends.
\<close>

fun symlink_chain :: "host \<Rightarrow> string \<Rightarrow> string list \<Rightarrow> bool" where
  "symlink_chain h p [] = True"
| "symlink_chain h p (t # ts) =
     (is_symlink h p \<and> fst (dereferenceSymlink h p) = (t, None) \<and> symlink_chain h t ts)"

text \<open>
  A climb through plain entries: the parent of \<open>p\<close> is the first of \<open>ps\<close>, and so on up to
  the last one, which is its own parent (the root).
\<close>

fun plain_climb :: "host \<Rightarrow> string \<Rightarrow> string list \<Rightarrow> bool" where
  "plain_climb h p [] = (is_plain h p \<and> filepath_Dir h p = p)"
| "plain_climb h p (q # qs) =
     (is_plain h p \<and> filepath_Dir h p = q \<and> q \<noteq> p \<and> plain_climb h q qs)"

text \<open>The first \<open>n\<close> passes through the loop body all end in \<open>Continue\<close>.\<close>

fun continues :: "host \<Rightarrow> nat \<Rightarrow> string \<Rightarrow> bool" where
  "continues h 0 p = True"
| "continues h (Suc n) p =
     (case fst (loop_body h p) of Done r \<Rightarrow> False | Continue q \<Rightarrow> continues h n q)"

text \<open>One hop of \<open>getTarget\<close>: whether the call returns without calling itself, and the
  argument of the call it makes otherwise.\<close>

definition getTarget_stops :: "host \<Rightarrow> string \<Rightarrow> bool" where
  "getTarget_stops h mount =
     (let out = fst (runExec h (get_item_target_cmd mount));
          err = snd (runExec h (get_item_target_cmd mount))
      in err \<noteq> None \<or> length out = 0 \<or> prefix ''Volume'' (strings_TrimSpace h out))"

definition next_mount :: "host \<Rightarrow> string \<Rightarrow> string" where
  "next_mount h mount = strings_TrimSpace h (fst (runExec h (get_item_target_cmd mount)))"

fun is_InvalidDriveLetter :: "error \<Rightarrow> bool" where
  "is_InvalidDriveLetter (InvalidDriveLetter p) = True"
| "is_InvalidDriveLetter e = False"

subsection \<open>Example hosts\<close>

text \<open>
  A small file system to evaluate the functions on: symbolic links with their targets,
  plain entries, and drive letters with the unique id of their volume. Its processes
  print the answer followed by a line end. \<open>drive_Dir\<close> agrees with \<open>filepath.Dir\<close> on clean
  paths below a drive letter, \<open>ascii_TrimSpace\<close> with \<open>strings.TrimSpace\<close> on ASCII text.
\<close>

definition ascii_space :: "char \<Rightarrow> bool" where
  "ascii_space c \<longleftrightarrow> (of_char c :: nat) \<in> {0x09, 0x0A, 0x0B, 0x0C, 0x0D, 0x20}"

definition ascii_TrimSpace :: "string \<Rightarrow> string" where
  "ascii_TrimSpace s = rev (dropWhile ascii_space (rev (dropWhile ascii_space s)))"

definition drive_Dir :: "string \<Rightarrow> string" where
  "drive_Dir p =
     (let vol = (if 2 \<le> length p \<and> p ! 1 = CHR '':'' then take 2 p else []);
          rest = drop (length vol) p;
          dir = rev (tl (dropWhile (\<lambda>c. c \<noteq> BS) (rev rest)))
      in vol @ (if dir \<noteq> [] then dir else if BS \<in> set rest then [BS] else ''.''))"

definition printed :: "string \<Rightarrow> cmd_result" where
  "printed s = \<lparr>run_err = None, out_bytes = s @ [CHR 0x0D, CHR 0x0A], err_bytes = [],
     combined_bytes = s @ [CHR 0x0D, CHR 0x0A]\<rparr>"

definition failed :: cmd_result where
  "failed = \<lparr>run_err = Some (OsError ''exit status 1''), out_bytes = [],
     err_bytes = ''not found'', combined_bytes = ''not found''\<rparr>"

definition fs_host :: "(string \<times> string) list \<Rightarrow> string list \<Rightarrow> (string \<times> string) list \<Rightarrow> host" where
  "fs_host links plain drives =
     \<lparr>os_Lstat = (\<lambda>p. if p \<in> fst ` set links then Inr 0x080001FF
                       else if p \<in> set plain then Inr 0x800001FF
                       else Inl (OsError ''no such file'')),
      powershell = (\<lambda>cmd.
        case map_of (map (\<lambda>(p, t). (get_item_target_cmd p, t)) links @
                     map (\<lambda>(l, v). (get_partition_volume_cmd l, v)) drives) cmd of
          Some s \<Rightarrow> printed s
        | None \<Rightarrow> failed),
      filepath_Dir = drive_Dir,
      strings_TrimSpace = ascii_TrimSpace\<rparr>"

definition volume_a :: string where
  "volume_a = ''Volume{aaaaaaaa-bbbb-cccc-dddd-eeeeeeeeeeee}''"

definition volume_9 :: string where
  "volume_9 = ''Volume{99999999-0000-1111-2222-333333333333}''"

definition doubly_prefixed :: string where
  "doubly_prefixed = volume_prefix @ volume_prefix @ ''Volume{a}''"

text \<open>Two links that point at each other.\<close>

definition link_x :: string where
  "link_x = ''C:'' @ [BS] @ ''x''"

definition link_y :: string where
  "link_y = ''C:'' @ [BS] @ ''y''"

definition cyclic :: host where
  "cyclic = fs_host [(link_x, link_y), (link_y, link_x)] [] []"

text \<open>A directory \<open>n\<close> levels below the root of drive C, every level of it named \<open>a\<close>.\<close>

fun deep_path :: "nat \<Rightarrow> string" where
  "deep_path 0 = ''C:'' @ [BS]"
| "deep_path (Suc 0) = ''C:'' @ [BS] @ ''a''"
| "deep_path (Suc (Suc n)) = deep_path (Suc n) @ [BS] @ ''a''"

text \<open>The levels above level \<open>n\<close>, from the parent up to the root.\<close>

fun deep_parents :: "nat \<Rightarrow> string list" where
  "deep_parents 0 = []"
| "deep_parents (Suc n) = deep_path n # deep_parents n"

definition deep :: host where
  "deep = fs_host [] (map deep_path [0..<257]) [(''C'', volume_prefix @ volume_a @ [BS])]"

text \<open>
  A link to a second link that points at a volume (the third scenario of the
  specification), and the same with the second link below a directory named like a volume.
\<close>

definition mount1 :: string where
  "mount1 = ''C:'' @ [BS] @ ''mount1''"

definition mount2 :: string where
  "mount2 = ''D:'' @ [BS] @ ''mount2''"

definition two_hops :: host where
  "two_hops = fs_host [(mount1, mount2), (mount2, volume_9)] [] []"

definition mount_below_volume_dir :: string where
  "mount_below_volume_dir = ''D:'' @ [BS] @ ''Volume{a}'' @ [BS] @ ''mount2''"

definition detour :: host where
  "detour = fs_host [(mount1, mount_below_volume_dir), (mount_below_volume_dir, volume_9)] [] []"

text \<open>
  A plain file three levels below the root of drive C (the second scenario of the
  specification); the drive letter resolves to a unique id with the prefix and a trailing
  backslash in \<open>nested\<close>, and to a bare identifier in \<open>bare_root\<close>.
\<close>

definition root_c :: string where
  "root_c = ''C:'' @ [BS]"

definition data_dir :: string where
  "data_dir = root_c @ ''data''"

definition nested_dir :: string where
  "nested_dir = data_dir @ [BS] @ ''nested''"

definition file_txt :: string where
  "file_txt = nested_dir @ [BS] @ ''file.txt''"

definition nested :: host where
  "nested = fs_host [] [root_c, data_dir, nested_dir, file_txt]
     [(''C'', volume_prefix @ volume_a @ [BS])]"

definition bare_root :: host where
  "bare_root = fs_host [] [root_c] [(''C'', volume_a)]"

text \<open>A host on which every metadata query succeeds and finds a directory.\<close>

definition all_plain :: host where
  "all_plain = (fs_host [] [] [])\<lparr>os_Lstat := (\<lambda>p. Inr 0x800001FF)\<rparr>"

text \<open>The calls that following a chain of links makes, in order.\<close>

fun chain_events :: "string \<Rightarrow> string list \<Rightarrow> event list" where
  "chain_events p [] = []"
| "chain_events p (t # ts) = Lstat_call p # Symlink_resolve p # chain_events t ts"

section \<open>Properties\<close>

subsection \<open>The volume shape matcher\<close>

lemma match_here_lits:
  "match_here (map Lit lit @ r) s \<longleftrightarrow> (\<exists>rest. s = lit @ rest \<and> match_here r rest)"
proof (induction lit arbitrary: s)
  case Nil
  then show ?case by simp
next
  case (Cons c lit)
  then show ?case by (cases s) auto
qed

lemma match_here_star:
  "match_here (StarClass p # r) s \<longleftrightarrow>
     (\<exists>tok rest. s = tok @ rest \<and> (\<forall>c \<in> set tok. p c) \<and> match_here r rest)"
proof (induction s)
  case Nil
  then show ?case by simp
next
  case (Cons x xs)
  show ?case
  proof
    assume "match_here (StarClass p # r) (x # xs)"
    then consider "match_here r (x # xs)" | "p x" "match_here (StarClass p # r) xs"
      by auto
    then show "\<exists>tok rest. x # xs = tok @ rest \<and> (\<forall>c \<in> set tok. p c) \<and> match_here r rest"
    proof cases
      case 1
      then have "x # xs = [] @ (x # xs) \<and> (\<forall>c \<in> set []. p c) \<and> match_here r (x # xs)"
        by simp
      then show ?thesis by blast
    next
      case 2
      with Cons obtain tok rest where "xs = tok @ rest" "\<forall>c \<in> set tok. p c" "match_here r rest"
        by blast
      with 2 have "x # xs = (x # tok) @ rest \<and> (\<forall>c \<in> set (x # tok). p c) \<and> match_here r rest"
        by simp
      then show ?thesis by blast
    qed
  next
    assume "\<exists>tok rest. x # xs = tok @ rest \<and> (\<forall>c \<in> set tok. p c) \<and> match_here r rest"
    then obtain tok rest where *: "x # xs = tok @ rest" "\<forall>c \<in> set tok. p c" "match_here r rest"
      by blast
    show "match_here (StarClass p # r) (x # xs)"
    proof (cases tok)
      case Nil
      with * have "match_here r (x # xs)" by simp
      then show ?thesis by simp
    next
      case (Cons y ys)
      with * have "xs = ys @ rest" "p x" "\<forall>c \<in> set ys. p c" by auto
      with * Cons.IH show ?thesis by auto
    qed
  qed
qed

lemma match_here_last_lit:
  "match_here [Lit c] s \<longleftrightarrow> (\<exists>post. s = c # post)"
  by (cases s) auto

lemma Match_anywhere:
  "Match r s \<longleftrightarrow> (\<exists>pre rest. s = pre @ rest \<and> match_here r rest)"
proof (induction s)
  case Nil
  then show ?case by simp
next
  case (Cons x xs)
  show ?case
  proof
    assume "Match r (x # xs)"
    then consider "match_here r (x # xs)" | "Match r xs" by auto
    then show "\<exists>pre rest. x # xs = pre @ rest \<and> match_here r rest"
    proof cases
      case 1
      then have "x # xs = [] @ (x # xs) \<and> match_here r (x # xs)" by simp
      then show ?thesis by blast
    next
      case 2
      with Cons obtain pre rest where "xs = pre @ rest" "match_here r rest" by blast
      then have "x # xs = (x # pre) @ rest \<and> match_here r rest" by simp
      then show ?thesis by blast
    qed
  next
    assume "\<exists>pre rest. x # xs = pre @ rest \<and> match_here r rest"
    then obtain pre rest where *: "x # xs = pre @ rest" "match_here r rest" by blast
    show "Match r (x # xs)"
    proof (cases pre)
      case Nil
      with * have "match_here r (x # xs)" by simp
      then show ?thesis by simp
    next
      case (Cons y ys)
      with * have "xs = ys @ rest" by simp
      with * Cons.IH show ?thesis by auto
    qed
  qed
qed

lemma VolumeRegexp_here:
  "match_here VolumeRegexp s \<longleftrightarrow>
     (\<exists>tok post. s = ''Volume{'' @ tok @ ''}'' @ post \<and> (\<forall>c \<in> set tok. word_or_hyphen c))"
  unfolding VolumeRegexp_def match_here_lits match_here_star match_here_last_lit
  by auto

text \<open>
  C4 (as amended). \<open>VolumeRegexp\<close> matches a string exactly when the string contains
  \<open>Volume{\<close>, then zero or more word or hyphen characters, then \<open>}\<close>; the match need not
  span the whole string.
\<close>

theorem VolumeRegexp_zero_or_more:
  "Match VolumeRegexp s \<longleftrightarrow>
     (\<exists>pre tok post. s = pre @ ''Volume{'' @ tok @ ''}'' @ post \<and>
        (\<forall>c \<in> set tok. word_or_hyphen c))"
  unfolding Match_anywhere VolumeRegexp_here by auto

text \<open>
  C4 as stated, with one or more characters between the braces, fails at \<open>Volume{}\<close>: the
  expression uses \<open>*\<close>, so the empty token matches.
\<close>

theorem VolumeRegexp_empty_token:
  "Match VolumeRegexp ''Volume{}'' \<and> \<not> volume_shape_as_specified ''Volume{}''"
proof
  show "Match VolumeRegexp ''Volume{}''" by (simp add: VolumeRegexp_def)
  show "\<not> volume_shape_as_specified ''Volume{}''"
  proof
    assume "volume_shape_as_specified ''Volume{}''"
    then obtain pre tok post where
      eq: "''Volume{}'' = pre @ ''Volume{'' @ tok @ ''}'' @ post" and ne: "tok \<noteq> []"
      unfolding volume_shape_as_specified_def by blast
    from eq have "length ''Volume{}'' = length (pre @ ''Volume{'' @ tok @ ''}'' @ post)"
      by (rule arg_cong)
    then have "length tok = 0" by simp
    with ne show False by simp
  qed
qed

text \<open>The amended C4 at a prefixed identifier with a trailing backslash.\<close>

theorem VolumeRegexp_zero_or_more_witness:
  "Match VolumeRegexp (volume_prefix @ ''Volume{a-1}'' @ [BS]) \<and>
   (\<exists>pre tok post. volume_prefix @ ''Volume{a-1}'' @ [BS] = pre @ ''Volume{'' @ tok @ ''}'' @ post \<and>
        (\<forall>c \<in> set tok. word_or_hyphen c))"
  using VolumeRegexp_zero_or_more [of "volume_prefix @ ''Volume{a-1}'' @ [BS]"]
  by (simp add: VolumeRegexp_def volume_prefix_def word_or_hyphen_def word_char_def)

subsection \<open>The normalizer\<close>

lemma ensureVolumePrefix_has_prefix: "prefix volume_prefix (ensureVolumePrefix s)"
  by (simp add: ensureVolumePrefix_def)

lemma ensureVolumePrefix_prefixed: "prefix volume_prefix s \<Longrightarrow> ensureVolumePrefix s = s"
  by (simp add: ensureVolumePrefix_def)

lemma ensureVolumePrefix_unprefixed: "ensureVolumePrefix s = volume_prefix @ unprefixed s"
  by (auto simp: ensureVolumePrefix_def unprefixed_def prefix_def)

lemma occurrences_after_prefix:
  "occurrences volume_prefix (volume_prefix @ body) =
     1 + (if prefix [BS, CHR ''?'', BS] body then 1 else 0) + occurrences volume_prefix body"
  by (simp add: volume_prefix_def)

lemma occurrences_absent_char:
  "x \<in> set p \<Longrightarrow> x \<notin> set s \<Longrightarrow> occurrences p s = 0"
proof (induction s)
  case Nil
  then show ?case by auto
next
  case (Cons y ys)
  have "\<not> prefix p (y # ys)"
  proof
    assume "prefix p (y # ys)"
    then have "set p \<subseteq> set (y # ys)" by (rule set_mono_prefix)
    with Cons.prems show False by auto
  qed
  with Cons show ?case by simp
qed

lemma occurrences_identifier:
  assumes "BS \<notin> set tok"
  shows "occurrences volume_prefix (volume_prefix @ ''Volume{'' @ tok @ ''}'') = 1"
proof -
  have "BS \<notin> set (''Volume{'' @ tok @ ''}'')" using assms by simp
  moreover have "BS \<in> set volume_prefix" by (simp add: volume_prefix_def)
  ultimately have "occurrences volume_prefix (''Volume{'' @ tok @ ''}'') = 0"
    by (rule occurrences_absent_char [rotated])
  then show ?thesis
    unfolding occurrences_after_prefix by simp
qed


subsection \<open>The collaborators and the loop body\<close>

declare findClosestVolume_loop.simps [simp del]

lemma loop_done:
  "i < 256 \<Longrightarrow> loop_body h c = (Done r, evs) \<Longrightarrow> findClosestVolume_loop h path i c = (r, evs)"
  by (subst findClosestVolume_loop.simps) simp

lemma loop_continue:
  "i < 256 \<Longrightarrow> loop_body h c = (Continue q, evs) \<Longrightarrow>
     findClosestVolume_loop h path i c =
       (fst (findClosestVolume_loop h path (Suc i) q),
        evs @ snd (findClosestVolume_loop h path (Suc i) q))"
  by (subst findClosestVolume_loop.simps) (simp add: apsnd_def map_prod_def split_beta)

lemma loop_exhausted:
  "\<not> i < 256 \<Longrightarrow>
     findClosestVolume_loop h path i c = (Return ([], Some (ClosestVolumeNotFound path)), [])"
  by (subst findClosestVolume_loop.simps) simp

lemma dereferenceSymlink_events: "snd (dereferenceSymlink h p) = [Symlink_resolve p]"
  by (simp add: dereferenceSymlink_def Let_def split: option.split)

lemma dereferenceSymlink_error: "fst (dereferenceSymlink h p) = (t, Some e) \<Longrightarrow> t = []"
  by (auto simp: dereferenceSymlink_def Let_def split: option.splits if_splits)

lemma getVolumeForDriveLetter_events:
  "snd (getVolumeForDriveLetter h l) = (if length l \<noteq> 1 then [] else [Drive_letter_lookup l])"
  by (simp add: getVolumeForDriveLetter_def Let_def split: option.split)

lemma getVolumeForDriveLetter_error: "fst (getVolumeForDriveLetter h l) = (t, Some e) \<Longrightarrow> t = []"
  by (auto simp: getVolumeForDriveLetter_def Let_def split: option.splits if_splits)

lemma getVolumeForDriveLetter_invalid:
  "fst (getVolumeForDriveLetter h l) = (t, Some e) \<Longrightarrow> is_InvalidDriveLetter e \<Longrightarrow> length l \<noteq> 1"
  by (auto simp: getVolumeForDriveLetter_def Let_def split: option.splits if_splits)

lemma getVolumeForDriveLetter_value:
  "fst (getVolumeForDriveLetter h l) = (v, None) \<Longrightarrow>
     v = strings_TrimSpace h (out_bytes (powershell h (get_partition_volume_cmd l))) \<and> length l = 1"
  by (auto simp: getVolumeForDriveLetter_def Let_def split: option.splits if_splits)

text \<open>The four ways through the loop body.\<close>

lemma loop_body_lstat_fails:
  "os_Lstat h c = Inl err \<Longrightarrow>
     loop_body h c = (Done (Return ([], Some (HostError err))), [Lstat_call c])"
  by (simp add: loop_body_def)

lemma loop_body_symlink:
  assumes "is_symlink h c"
  shows "loop_body h c =
    (case fst (dereferenceSymlink h c) of
       (target, Some err) \<Rightarrow> Done (Return ([], Some err))
     | (target, None) \<Rightarrow>
         if Match VolumeRegexp target then Done (Return (ensureVolumePrefix target, None))
         else Continue target,
     [Lstat_call c, Symlink_resolve c])"
proof -
  obtain t e evs where d: "dereferenceSymlink h c = ((t, e), evs)"
    by (metis surj_pair)
  with dereferenceSymlink_events [of h c] have "evs = [Symlink_resolve c]" by simp
  with d assms show ?thesis
    by (auto simp: loop_body_def is_symlink_def split: sum.splits option.splits)
qed

lemma loop_body_plain:
  assumes "is_plain h c"
  shows "loop_body h c =
    (if filepath_Dir h c = c then
       (if c = [] then (Done Panic, [Lstat_call c])
        else (case fst (getVolumeForDriveLetter h (take 1 c)) of
                (target, Some err) \<Rightarrow> Done (Return ([], Some err))
              | (target, None) \<Rightarrow> Done (Return (target, None)),
              [Lstat_call c, Drive_letter_lookup (take 1 c)]))
     else (Continue (filepath_Dir h c), [Lstat_call c]))"
proof (cases "filepath_Dir h c = c \<and> c \<noteq> []")
  case True
  obtain t e evs where g: "getVolumeForDriveLetter h (take 1 c) = ((t, e), evs)"
    by (metis surj_pair)
  from True have "length (take 1 c) = 1" by (cases c) auto
  with g getVolumeForDriveLetter_events [of h "take 1 c"]
  have "evs = [Drive_letter_lookup (take 1 c)]" by simp
  with g assms True show ?thesis
    by (auto simp: loop_body_def is_plain_def Let_def split: sum.splits option.splits)
next
  case False
  with assms show ?thesis
    by (auto simp: loop_body_def is_plain_def Let_def split: sum.splits)
qed

lemma lstat_cases:
  obtains err where "os_Lstat h c = Inl err" | "is_symlink h c" | "is_plain h c"
  by (cases "os_Lstat h c") (auto simp: is_symlink_def is_plain_def)

lemma loop_body_events:
  "snd (loop_body h c) = [Lstat_call c] \<or>
   snd (loop_body h c) = [Lstat_call c, Symlink_resolve c] \<or>
   snd (loop_body h c) = [Lstat_call c, Drive_letter_lookup (take 1 c)]"
  by (rule lstat_cases [of h c]) (simp_all add: loop_body_lstat_fails loop_body_symlink loop_body_plain)

lemma loop_body_lstat_calls: "lstat_calls (snd (loop_body h c)) = 1"
  using loop_body_events [of h c] by (auto simp: lstat_calls_def)

lemma loop_body_error_empty:
  "fst (loop_body h c) = Done (Return (v, Some e)) \<Longrightarrow> v = []"
  by (rule lstat_cases [of h c])
    (auto simp: loop_body_lstat_fails loop_body_symlink loop_body_plain
      split: prod.splits option.splits if_splits)

subsection \<open>The loop\<close>

lemma lstat_calls_append [simp]: "lstat_calls (a @ b) = lstat_calls a + lstat_calls b"
  by (simp add: lstat_calls_def)

lemma symlink_resolutions_append [simp]:
  "symlink_resolutions (a @ b) = symlink_resolutions a + symlink_resolutions b"
  by (simp add: symlink_resolutions_def)

lemma drive_letter_lookups_append [simp]:
  "drive_letter_lookups (a @ b) = drive_letter_lookups a + drive_letter_lookups b"
  by (simp add: drive_letter_lookups_def)

text \<open>Every property of the loop is proved by induction on the passes that are left.\<close>

lemma loop_cases:
  obtains (exhausted) "\<not> i < 256"
      "findClosestVolume_loop h path i c = (Return ([], Some (ClosestVolumeNotFound path)), [])"
    | (finished) r where "i < 256" "fst (loop_body h c) = Done r"
      "findClosestVolume_loop h path i c = (r, snd (loop_body h c))"
    | (continued) q where "i < 256" "fst (loop_body h c) = Continue q"
      "findClosestVolume_loop h path i c =
         (fst (findClosestVolume_loop h path (Suc i) q),
          snd (loop_body h c) @ snd (findClosestVolume_loop h path (Suc i) q))"
proof (cases "i < 256")
  case False
  then show ?thesis using exhausted loop_exhausted by blast
next
  case True
  obtain s evs where b: "loop_body h c = (s, evs)" by (metis surj_pair)
  show ?thesis
  proof (cases s)
    case (Done r)
    with b True show ?thesis using finished [of r] loop_done [of i h c r evs path] by simp
  next
    case (Continue q)
    with b True show ?thesis using continued [of q] loop_continue [of i h c q evs path] by simp
  qed
qed

lemma loop_lstat_bound:
  "lstat_calls (snd (findClosestVolume_loop h path i c)) \<le> 256 - i"
proof (induction "256 - i" arbitrary: i c)
  case 0
  then have "\<not> i < 256" by simp
  then show ?case by (simp add: loop_exhausted lstat_calls_def)
next
  case (Suc n)
  show ?case
  proof (cases rule: loop_cases [of i h path c])
    case exhausted
    then show ?thesis by (simp add: lstat_calls_def)
  next
    case (finished r)
    then show ?thesis by (simp add: loop_body_lstat_calls)
  next
    case (continued q)
    from Suc.hyps(2) have "n = 256 - Suc i" by simp
    then have "lstat_calls (snd (findClosestVolume_loop h path (Suc i) q)) \<le> 256 - Suc i"
      by (rule Suc.hyps(1))
    with continued show ?thesis by (simp add: loop_body_lstat_calls)
  qed
qed

lemma loop_continues:
  "continues h (256 - i) c \<Longrightarrow>
     fst (findClosestVolume_loop h path i c) = Return ([], Some (ClosestVolumeNotFound path)) \<and>
     lstat_calls (snd (findClosestVolume_loop h path i c)) = 256 - i"
proof (induction "256 - i" arbitrary: i c)
  case 0
  then have "\<not> i < 256" by simp
  then show ?case by (simp add: loop_exhausted lstat_calls_def)
next
  case (Suc n)
  from Suc.hyps(2) have n: "n = 256 - Suc i" and i: "i < 256" by simp_all
  from Suc.hyps(2) Suc.prems have c: "continues h (Suc n) c" by simp
  then obtain q where q: "fst (loop_body h c) = Continue q" "continues h n q"
    by (auto split: step.splits)
  from q(2) n have "continues h (256 - Suc i) q" by simp
  with n have IH: "fst (findClosestVolume_loop h path (Suc i) q) = Return ([], Some (ClosestVolumeNotFound path)) \<and>
     lstat_calls (snd (findClosestVolume_loop h path (Suc i) q)) = 256 - Suc i"
    by (rule Suc.hyps(1))
  show ?case
  proof (cases rule: loop_cases [of i h path c])
    case exhausted
    with i show ?thesis by simp
  next
    case (finished r)
    with q show ?thesis by simp
  next
    case (continued q')
    with q have "q' = q" by simp
    with continued IH i show ?thesis by (simp add: loop_body_lstat_calls)
  qed
qed

lemma loop_error_empty:
  "fst (findClosestVolume_loop h path i c) = Return (v, Some e) \<Longrightarrow> v = []"
proof (induction "256 - i" arbitrary: i c)
  case 0
  then have "\<not> i < 256" by simp
  with 0 show ?case by (simp add: loop_exhausted)
next
  case (Suc n)
  show ?case
  proof (cases rule: loop_cases [of i h path c])
    case exhausted
    with Suc.prems show ?thesis by simp
  next
    case (finished r)
    with Suc.prems show ?thesis by (simp add: loop_body_error_empty)
  next
    case (continued q)
    from Suc.hyps(2) have "n = 256 - Suc i" by simp
    moreover from continued Suc.prems
    have "fst (findClosestVolume_loop h path (Suc i) q) = Return (v, Some e)" by simp
    ultimately show ?thesis by (rule Suc.hyps(1))
  qed
qed



lemma dereferenceSymlink_not_invalid:
  "fst (dereferenceSymlink h p) = (t, Some e) \<Longrightarrow> \<not> is_InvalidDriveLetter e"
  by (auto simp: dereferenceSymlink_def Let_def split: option.splits if_splits)

lemma loop_body_no_panic:
  "filepath_Dir h [] \<noteq> [] \<Longrightarrow> fst (loop_body h c) \<noteq> Done Panic"
  by (rule lstat_cases [of h c])
    (auto simp: loop_body_lstat_fails loop_body_symlink loop_body_plain
      split: prod.splits option.splits if_splits)

lemma loop_body_not_invalid:
  assumes "filepath_Dir h [] \<noteq> []" "fst (loop_body h c) = Done (Return (v, Some e))"
  shows "\<not> is_InvalidDriveLetter e"
proof (rule lstat_cases [of h c])
  fix err assume "os_Lstat h c = Inl err"
  with assms show ?thesis by (auto simp: loop_body_lstat_fails)
next
  assume "is_symlink h c"
  with assms show ?thesis
    by (auto simp: loop_body_symlink dereferenceSymlink_not_invalid
        split: prod.splits option.splits if_splits)
next
  assume p: "is_plain h c"
  with assms have c: "filepath_Dir h c = c" "c \<noteq> []"
    and g: "fst (getVolumeForDriveLetter h (take 1 c)) = (fst (fst (getVolumeForDriveLetter h (take 1 c))), Some e)"
    by (auto simp: loop_body_plain split: prod.splits option.splits if_splits)
  from c have "length (take 1 c) = 1" by (cases c) auto
  with getVolumeForDriveLetter_invalid [OF g] show ?thesis by blast
qed

lemma loop_safe:
  assumes "filepath_Dir h [] \<noteq> []"
  shows "fst (findClosestVolume_loop h path i c) \<noteq> Panic \<and>
    (\<forall>v e. fst (findClosestVolume_loop h path i c) = Return (v, Some e) \<longrightarrow>
       \<not> is_InvalidDriveLetter e)"
proof (induction "256 - i" arbitrary: i c)
  case 0
  then have "\<not> i < 256" by simp
  then show ?case by (simp add: loop_exhausted)
next
  case (Suc n)
  show ?case
  proof (cases rule: loop_cases [of i h path c])
    case exhausted
    then show ?thesis by simp
  next
    case (finished r)
    with loop_body_no_panic [OF assms, of c] loop_body_not_invalid [OF assms, of c]
    show ?thesis by auto
  next
    case (continued q)
    from Suc.hyps(2) have "n = 256 - Suc i" by simp
    from Suc.hyps(1) [OF this, of q] continued show ?thesis by simp
  qed
qed

text \<open>Where a returned identifier comes from.\<close>

lemma loop_body_continue_no_lookup:
  "fst (loop_body h c) = Continue q \<Longrightarrow> drive_letter_lookups (snd (loop_body h c)) = 0"
  by (rule lstat_cases [of h c])
    (auto simp: loop_body_lstat_fails loop_body_symlink loop_body_plain drive_letter_lookups_def
      split: prod.splits option.splits if_splits)

lemma loop_body_identifier:
  assumes "fst (loop_body h c) = Done (Return (v, None))"
  shows "(drive_letter_lookups (snd (loop_body h c)) = 0 \<and> prefix volume_prefix v) \<or>
    (\<exists>l. Drive_letter_lookup l \<in> set (snd (loop_body h c)) \<and>
       fst (getVolumeForDriveLetter h l) = (v, None))"
proof (rule lstat_cases [of h c])
  fix err assume "os_Lstat h c = Inl err"
  with assms show ?thesis by (auto simp: loop_body_lstat_fails)
next
  assume "is_symlink h c"
  with assms show ?thesis
    by (auto simp: loop_body_symlink drive_letter_lookups_def ensureVolumePrefix_has_prefix
        split: prod.splits option.splits if_splits)
next
  assume "is_plain h c"
  with assms show ?thesis
    by (auto simp: loop_body_plain split: prod.splits option.splits if_splits)
qed

lemma loop_identifier:
  "fst (findClosestVolume_loop h path i c) = Return (v, None) \<Longrightarrow>
     (drive_letter_lookups (snd (findClosestVolume_loop h path i c)) = 0 \<and> prefix volume_prefix v) \<or>
     (\<exists>l. Drive_letter_lookup l \<in> set (snd (findClosestVolume_loop h path i c)) \<and>
        fst (getVolumeForDriveLetter h l) = (v, None))"
proof (induction "256 - i" arbitrary: i c)
  case 0
  then have "\<not> i < 256" by simp
  with 0 show ?case by (simp add: loop_exhausted)
next
  case (Suc n)
  show ?case
  proof (cases rule: loop_cases [of i h path c])
    case exhausted
    with Suc.prems show ?thesis by simp
  next
    case (finished r)
    with Suc.prems loop_body_identifier [of h c v] show ?thesis by simp
  next
    case (continued q)
    from Suc.hyps(2) have "n = 256 - Suc i" by simp
    moreover from continued Suc.prems
    have "fst (findClosestVolume_loop h path (Suc i) q) = Return (v, None)" by simp
    ultimately have "(drive_letter_lookups (snd (findClosestVolume_loop h path (Suc i) q)) = 0 \<and>
        prefix volume_prefix v) \<or>
      (\<exists>l. Drive_letter_lookup l \<in> set (snd (findClosestVolume_loop h path (Suc i) q)) \<and>
        fst (getVolumeForDriveLetter h l) = (v, None))"
      by (rule Suc.hyps(1))
    with continued loop_body_continue_no_lookup [of h c q] show ?thesis by auto
  qed
qed

text \<open>Following a chain of symbolic links.\<close>

lemma chain_events_counts:
  "symlink_resolutions (chain_events p ts) = length ts \<and> lstat_calls (chain_events p ts) = length ts
   \<and> drive_letter_lookups (chain_events p ts) = 0"
  by (induction p ts rule: chain_events.induct)
    (simp_all add: symlink_resolutions_def lstat_calls_def drive_letter_lookups_def)

lemma loop_symlink_chain:
  assumes "symlink_chain h c ts" "ts \<noteq> []" "i + length ts \<le> 256"
    "list_all (\<lambda>t. \<not> Match VolumeRegexp t) (butlast ts)" "Match VolumeRegexp (last ts)"
  shows "findClosestVolume_loop h path i c =
    (Return (ensureVolumePrefix (last ts), None), chain_events c ts)"
  using assms
proof (induction ts arbitrary: c i)
  case Nil
  then show ?case by simp
next
  case (Cons t ts)
  then have c: "is_symlink h c" "fst (dereferenceSymlink h c) = (t, None)" and i: "i < 256"
    by simp_all
  show ?case
  proof (cases "ts = []")
    case True
    with Cons.prems c have "loop_body h c =
      (Done (Return (ensureVolumePrefix t, None)), [Lstat_call c, Symlink_resolve c])"
      by (simp add: loop_body_symlink)
    with i True show ?thesis by (simp add: loop_done)
  next
    case False
    with Cons.prems have "\<not> Match VolumeRegexp t" by simp
    with c have b: "loop_body h c = (Continue t, [Lstat_call c, Symlink_resolve c])"
      by (simp add: loop_body_symlink)
    from Cons.prems False have "findClosestVolume_loop h path (Suc i) t =
      (Return (ensureVolumePrefix (last ts), None), chain_events t ts)"
      by (intro Cons.IH) simp_all
    with loop_continue [OF i b, of path] False show ?thesis by simp
  qed
qed

text \<open>Climbing through plain entries up to the root.\<close>

lemma loop_plain_climb:
  assumes "plain_climb h c ps" "i + length ps < 256" "last (c # ps) \<noteq> []"
  shows "findClosestVolume_loop h path i c =
    (Return (fst (getVolumeForDriveLetter h (take 1 (last (c # ps))))),
     map Lstat_call (c # ps) @ [Drive_letter_lookup (take 1 (last (c # ps)))])"
  using assms
proof (induction ps arbitrary: c i)
  case Nil
  then have c: "is_plain h c" "filepath_Dir h c = c" "c \<noteq> []" and i: "i < 256" by simp_all
  obtain t e where g: "fst (getVolumeForDriveLetter h (take 1 c)) = (t, e)" by (metis surj_pair)
  have "e \<noteq> None \<Longrightarrow> t = []" using getVolumeForDriveLetter_error g by blast
  with c g have "loop_body h c =
    (Done (Return (t, e)), [Lstat_call c, Drive_letter_lookup (take 1 c)])"
    by (cases e) (auto simp: loop_body_plain)
  with i g show ?case by (simp add: loop_done)
next
  case (Cons q qs)
  then have c: "is_plain h c" "filepath_Dir h c = q" "q \<noteq> c" and i: "i < 256" by simp_all
  then have b: "loop_body h c = (Continue q, [Lstat_call c])"
    by (auto simp: loop_body_plain)
  from Cons.prems have "findClosestVolume_loop h path (Suc i) q =
    (Return (fst (getVolumeForDriveLetter h (take 1 (last (q # qs))))),
     map Lstat_call (q # qs) @ [Drive_letter_lookup (take 1 (last (q # qs)))])"
    by (intro Cons.IH) simp_all
  with loop_continue [OF i b, of path] show ?case by simp
qed

subsection \<open>getTarget\<close>

lemma getTarget_stop:
  "getTarget_stops h m \<Longrightarrow> \<exists>r. getTarget h m = Some r"
  by (subst getTarget.simps) (auto simp: getTarget_stops_def Let_def)

lemma getTarget_hop:
  "\<not> getTarget_stops h m \<Longrightarrow> getTarget h m = getTarget h (next_mount h m)"
  by (subst getTarget.simps) (auto simp: getTarget_stops_def next_mount_def Let_def)

lemma getTarget_returns_if:
  "getTarget_stops h ((next_mount h ^^ n) m) \<Longrightarrow> \<exists>r. getTarget h m = Some r"
proof (induction n arbitrary: m)
  case 0
  then have "getTarget_stops h m" by simp
  then show ?case by (rule getTarget_stop)
next
  case (Suc n)
  show ?case
  proof (cases "getTarget_stops h m")
    case True
    then show ?thesis by (rule getTarget_stop)
  next
    case False
    from Suc.prems have "getTarget_stops h ((next_mount h ^^ n) (next_mount h m))"
      by (simp add: funpow_swap1)
    then have "\<exists>r. getTarget h (next_mount h m) = Some r" by (rule Suc.IH)
    with False show ?thesis by (simp add: getTarget_hop)
  qed
qed

lemma getTarget_returns_only_if:
  assumes "getTarget h m = Some r"
  shows "\<exists>n. getTarget_stops h ((next_mount h ^^ n) m)"
proof (rule getTarget.raw_induct [OF _ assms])
  fix getTarget' h m r
  assume IH: "\<And>h m y. getTarget' h m = Some y \<Longrightarrow> \<exists>n. getTarget_stops h ((next_mount h ^^ n) m)"
    and body: "(let cmd = get_item_target_cmd m; out = fst (runExec h cmd);
          err = snd (runExec h cmd)
      in if err \<noteq> None \<or> length out = 0
         then Some ([], Some (GetTargetError cmd out err))
         else let volumeString = strings_TrimSpace h out
              in if \<not> prefix ''Volume'' volumeString
                 then getTarget' h volumeString
                 else Some (ensureVolumePrefix volumeString, None)) = Some r"
  show "\<exists>n. getTarget_stops h ((next_mount h ^^ n) m)"
  proof (cases "getTarget_stops h m")
    case True
    then have "getTarget_stops h ((next_mount h ^^ 0) m)" by simp
    then show ?thesis by blast
  next
    case False
    with body have "getTarget' h (next_mount h m) = Some r"
      by (auto simp: getTarget_stops_def next_mount_def Let_def split: if_splits)
    then obtain n where "getTarget_stops h ((next_mount h ^^ n) (next_mount h m))"
      using IH by blast
    then have "getTarget_stops h ((next_mount h ^^ Suc n) m)" by (simp add: funpow_swap1)
    then show ?thesis by blast
  qed
qed

lemmas host_simps = fs_host_def printed_def failed_def ascii_TrimSpace_def ascii_space_def
  drive_Dir_def get_item_target_cmd_def get_partition_volume_cmd_def

lemma cyclic_hops:
  "\<not> getTarget_stops cyclic link_x" "next_mount cyclic link_x = link_y"
  "\<not> getTarget_stops cyclic link_y" "next_mount cyclic link_y = link_x"
  by (simp_all add: getTarget_stops_def next_mount_def runExec_def cyclic_def link_x_def
      link_y_def host_simps)

lemma cyclic_never_stops:
  "\<not> getTarget_stops cyclic ((next_mount cyclic ^^ n) link_x) \<and>
   \<not> getTarget_stops cyclic ((next_mount cyclic ^^ n) link_y)"
  by (induction n) (simp_all add: cyclic_hops funpow_swap1)

lemma cyclic_body:
  "loop_body cyclic link_x = (Continue link_y, [Lstat_call link_x, Symlink_resolve link_x])"
  "loop_body cyclic link_y = (Continue link_x, [Lstat_call link_y, Symlink_resolve link_y])"
  by (simp_all add: loop_body_def dereferenceSymlink_def cyclic_def link_x_def link_y_def
      host_simps ModeSymlink_def VolumeRegexp_def)

lemma cyclic_continues: "continues cyclic n link_x \<and> continues cyclic n link_y"
  by (induction n) (simp_all add: cyclic_body)

lemma deep_path_shape: "\<exists>r. deep_path n = ''C:'' @ BS # r"
  by (induction n rule: deep_path.induct) auto

lemma deep_path_length: "length (deep_path (Suc n)) = 2 * n + 4"
  by (induction n) simp_all

lemma deep_path_Dir:
  "drive_Dir (deep_path 0) = deep_path 0" "drive_Dir (deep_path (Suc n)) = deep_path n"
proof -
  show "drive_Dir (deep_path 0) = deep_path 0" by (simp add: drive_Dir_def)
  show "drive_Dir (deep_path (Suc n)) = deep_path n"
  proof (cases n)
    case 0
    then show ?thesis by (simp add: drive_Dir_def)
  next
    case (Suc m)
    obtain r where "deep_path (Suc m) = ''C:'' @ BS # r" using deep_path_shape by blast
    with Suc show ?thesis by (simp add: drive_Dir_def)
  qed
qed

lemma deep_path_distinct: "deep_path (Suc n) \<noteq> deep_path n"
proof
  assume "deep_path (Suc n) = deep_path n"
  then have "length (deep_path (Suc n)) = length (deep_path n)" by simp
  then show False by (cases n) (simp_all only: deep_path_length, simp_all)
qed

lemma deep_plain: "n \<le> 256 \<Longrightarrow> is_plain deep (deep_path n)"
  by (simp add: is_plain_def deep_def fs_host_def ModeSymlink_def)

lemma deep_Dir: "filepath_Dir deep = drive_Dir"
  by (simp add: deep_def fs_host_def)

lemma deep_body:
  "n < 256 \<Longrightarrow> loop_body deep (deep_path (Suc n)) = (Continue (deep_path n), [Lstat_call (deep_path (Suc n))])"
  using deep_path_distinct [of n]
  by (simp add: loop_body_plain deep_plain deep_Dir deep_path_Dir del: deep_path.simps)

lemma deep_continues: "n \<le> k \<Longrightarrow> k \<le> 256 \<Longrightarrow> continues deep n (deep_path k)"
proof (induction n arbitrary: k)
  case 0
  then show ?case by simp
next
  case (Suc n)
  then obtain j where k: "k = Suc j" "n \<le> j" "j < 256" by (cases k) auto
  with Suc.IH [of j] show ?case by (simp add: deep_body del: deep_path.simps)
qed

lemma deep_climb: "n \<le> 256 \<Longrightarrow> plain_climb deep (deep_path n) (deep_parents n)"
proof (induction n)
  case 0
  then show ?case by (simp add: deep_plain deep_Dir deep_path_Dir del: deep_path.simps)
next
  case (Suc n)
  with deep_path_distinct [of n] show ?case
    by (simp add: deep_plain deep_Dir deep_path_Dir del: deep_path.simps)
qed

lemma deep_parents_length: "length (deep_parents n) = n"
  by (induction n) simp_all

lemma deep_parents_last: "last (deep_path n # deep_parents n) = deep_path 0"
  by (induction n) (simp_all del: deep_path.simps)

subsection \<open>The example hosts\<close>

lemmas path_simps = mount1_def mount2_def mount_below_volume_dir_def root_c_def data_dir_def
  nested_dir_def file_txt_def volume_a_def volume_9_def link_x_def link_y_def

lemmas eval_simps = host_simps path_simps is_symlink_def is_plain_def ModeSymlink_def
  dereferenceSymlink_def getVolumeForDriveLetter_def loop_body_def VolumeRegexp_def
  word_or_hyphen_def word_char_def ensureVolumePrefix_def volume_prefix_def
  findClosestVolume_def findClosestVolume_loop.simps

lemma two_hops_chain: "symlink_chain two_hops mount1 [mount2, volume_9]"
  by (simp add: two_hops_def eval_simps)

lemma two_hops_result:
  "findClosestVolume two_hops mount1 =
     (Return (volume_prefix @ volume_9, None),
      [Lstat_call mount1, Symlink_resolve mount1, Lstat_call mount2, Symlink_resolve mount2])"
  by (simp add: two_hops_def eval_simps)

lemma detour_chain: "symlink_chain detour mount1 [mount_below_volume_dir, volume_9]"
  by (simp add: detour_def eval_simps)

lemma detour_result:
  "findClosestVolume detour mount1 =
     (Return (volume_prefix @ mount_below_volume_dir, None),
      [Lstat_call mount1, Symlink_resolve mount1])"
  by (simp add: detour_def eval_simps)

lemma nested_climb: "plain_climb nested file_txt [nested_dir, data_dir, root_c]"
  by (simp add: nested_def eval_simps)

lemma nested_result:
  "findClosestVolume nested file_txt =
     (Return (volume_prefix @ volume_a @ [BS], None),
      [Lstat_call file_txt, Lstat_call nested_dir, Lstat_call data_dir, Lstat_call root_c,
       Drive_letter_lookup ''C''])"
  by (simp add: nested_def eval_simps)

lemma nested_lookup:
  "getVolumeForDriveLetter nested ''C'' =
     ((volume_prefix @ volume_a @ [BS], None), [Drive_letter_lookup ''C''])"
  by (simp add: nested_def eval_simps)

lemma bare_root_result:
  "findClosestVolume bare_root root_c =
     (Return (volume_a, None), [Lstat_call root_c, Drive_letter_lookup ''C''])"
  by (simp add: bare_root_def eval_simps)

lemma all_plain_empty_path:
  "findClosestVolume all_plain [] =
     (Return ([], Some (HostError (OsError ''exit status 1''))),
      [Lstat_call [], Lstat_call ''.'', Drive_letter_lookup ''.''])"
  by (simp add: all_plain_def eval_simps Let_def)

text \<open>
  The slice of an empty path is a panic of the model: it is reached on a host whose
  \<open>filepath.Dir\<close> returns the empty path for the empty path.
\<close>

lemma findClosestVolume_panics_on_empty_root:
  "findClosestVolume (all_plain\<lparr>filepath_Dir := (\<lambda>p. p)\<rparr>) [] = (Panic, [Lstat_call []])"
  by (simp add: all_plain_def eval_simps)

lemma deep_lookup:
  "fst (getVolumeForDriveLetter deep (take 1 (deep_path 0))) = (volume_prefix @ volume_a @ [BS], None)"
  by (simp add: deep_def eval_simps)

subsection \<open>Helper facts on the public operation\<close>

lemma GetClosestVolumeIDFromTargetPath_error:
  "fst (findClosestVolume h targetPath) = Return (s, Some err) \<Longrightarrow>
     fst (GetClosestVolumeIDFromTargetPath h targetPath) =
       Return ([], Some (ClosestVolumeError targetPath err))"
  by (cases "findClosestVolume h targetPath") (simp add: GetClosestVolumeIDFromTargetPath_def)

lemma cyclic_bound_failure:
  "fst (findClosestVolume cyclic link_x) = Return ([], Some (ClosestVolumeNotFound link_x))"
proof -
  have "continues cyclic (256 - 0) link_x" using cyclic_continues [of 256] by simp
  then have "fst (findClosestVolume_loop cyclic link_x 0 link_x) =
      Return ([], Some (ClosestVolumeNotFound link_x)) \<and>
    lstat_calls (snd (findClosestVolume_loop cyclic link_x 0 link_x)) = 256 - 0"
    by (rule loop_continues)
  then show ?thesis by (simp add: findClosestVolume_def)
qed

section \<open>The walker\<close>

text \<open>
  C1 (as amended). For a chain of \<open>k\<close> symbolic links, \<open>1 \<le> k \<le> 256\<close>, whose last target
  matches the volume shape and none of whose earlier targets does, \<open>findClosestVolume\<close>
  returns \<open>ensureVolumePrefix\<close> of the last target after exactly \<open>k\<close> symlink
  resolutions. That result is the target itself when the target starts with the prefix and
  the prefix followed by the target otherwise; when the target is \<open>Volume{token}\<close> with or
  without the prefix (no backslash in the token), the prefix occurs in it exactly once.
\<close>

theorem findClosestVolume_symlink_chain:
  assumes "symlink_chain h p ts" "1 \<le> length ts" "length ts \<le> 256"
    "list_all (\<lambda>t. \<not> Match VolumeRegexp t) (butlast ts)" "Match VolumeRegexp (last ts)"
  shows "fst (findClosestVolume h p) = Return (ensureVolumePrefix (last ts), None) \<and>
    symlink_resolutions (snd (findClosestVolume h p)) = length ts \<and>
    ensureVolumePrefix (last ts) =
      (if prefix volume_prefix (last ts) then last ts else volume_prefix @ last ts) \<and>
    (BS \<notin> set tok \<and> unprefixed (last ts) = ''Volume{'' @ tok @ ''}'' \<longrightarrow>
       occurrences volume_prefix (ensureVolumePrefix (last ts)) = 1)"
proof -
  from assms have "findClosestVolume h p =
    (Return (ensureVolumePrefix (last ts), None), chain_events p ts)"
    unfolding findClosestVolume_def by (intro loop_symlink_chain) auto
  then have "fst (findClosestVolume h p) = Return (ensureVolumePrefix (last ts), None)"
    and "symlink_resolutions (snd (findClosestVolume h p)) = length ts"
    by (simp_all add: chain_events_counts)
  moreover have "ensureVolumePrefix (last ts) =
      (if prefix volume_prefix (last ts) then last ts else volume_prefix @ last ts)"
    by (simp add: ensureVolumePrefix_def)
  moreover have "occurrences volume_prefix (ensureVolumePrefix (last ts)) = 1"
    if tok: "BS \<notin> set tok" and shape: "unprefixed (last ts) = ''Volume{'' @ tok @ ''}''"
  proof -
    have e: "ensureVolumePrefix (last ts) = volume_prefix @ ''Volume{'' @ tok @ ''}''"
      by (simp only: ensureVolumePrefix_unprefixed shape)
    show ?thesis unfolding e using tok by (rule occurrences_identifier)
  qed
  ultimately show ?thesis by blast
qed

text \<open>
  The amended C1 on the third scenario of the specification: a link to \<open>D:\mount2\<close>,
  itself a link to a volume; two resolutions.
\<close>

theorem findClosestVolume_symlink_chain_witness:
  "symlink_chain two_hops mount1 [mount2, volume_9] \<and>
   1 \<le> length [mount2, volume_9] \<and> length [mount2, volume_9] \<le> 256 \<and>
   list_all (\<lambda>t. \<not> Match VolumeRegexp t) (butlast [mount2, volume_9]) \<and>
   Match VolumeRegexp (last [mount2, volume_9]) \<and>
   fst (findClosestVolume two_hops mount1) = Return (volume_prefix @ volume_9, None) \<and>
   symlink_resolutions (snd (findClosestVolume two_hops mount1)) = 2 \<and>
   occurrences volume_prefix (volume_prefix @ volume_9) = 1"
proof -
  have chain: "symlink_chain two_hops mount1 [mount2, volume_9]" by (rule two_hops_chain)
  have len1: "1 \<le> length [mount2, volume_9]" by simp
  have len2: "length [mount2, volume_9] \<le> 256" by simp
  have mid: "list_all (\<lambda>t. \<not> Match VolumeRegexp t) (butlast [mount2, volume_9])"
    by (simp add: mount2_def VolumeRegexp_def)
  have fin: "Match VolumeRegexp (last [mount2, volume_9])"
    by (simp add: volume_9_def VolumeRegexp_def word_or_hyphen_def word_char_def)
  have tok: "BS \<notin> set ''99999999-0000-1111-2222-333333333333'' \<and>
    unprefixed (last [mount2, volume_9]) =
      ''Volume{'' @ ''99999999-0000-1111-2222-333333333333'' @ ''}''"
    by (simp add: unprefixed_def volume_9_def volume_prefix_def)
  have pre: "ensureVolumePrefix (last [mount2, volume_9]) = volume_prefix @ volume_9"
    by (simp add: ensureVolumePrefix_def volume_9_def volume_prefix_def)
  have two: "length [mount2, volume_9] = 2" by simp
  note walk = findClosestVolume_symlink_chain [OF chain len1 len2 mid fin,
      of "''99999999-0000-1111-2222-333333333333''", unfolded pre two]
  from walk tok have "fst (findClosestVolume two_hops mount1) = Return (volume_prefix @ volume_9, None)"
    and "symlink_resolutions (snd (findClosestVolume two_hops mount1)) = 2"
    and "occurrences volume_prefix (volume_prefix @ volume_9) = 1"
    by blast+
  with chain len1 len2 mid fin show ?thesis by blast
qed

text \<open>
  C1 as stated fails on a chain of two links whose first target lies below a directory
  named \<open>Volume{a}\<close>: that target matches \<open>VolumeRegexp\<close>, so the walk returns it, with the
  prefix, after one resolution, and never reaches the volume the chain ends in.
\<close>

theorem findClosestVolume_stops_at_volume_shaped_link:
  "symlink_chain detour mount1 [mount_below_volume_dir, volume_9] \<and>
   Match VolumeRegexp (last [mount_below_volume_dir, volume_9]) \<and>
   fst (findClosestVolume detour mount1) = Return (volume_prefix @ mount_below_volume_dir, None) \<and>
   volume_prefix @ mount_below_volume_dir \<noteq> ensureVolumePrefix (last [mount_below_volume_dir, volume_9]) \<and>
   symlink_resolutions (snd (findClosestVolume detour mount1)) = 1 \<and>
   length [mount_below_volume_dir, volume_9] = 2"
proof -
  have "Match VolumeRegexp (last [mount_below_volume_dir, volume_9])"
    by (simp add: volume_9_def VolumeRegexp_def word_or_hyphen_def word_char_def)
  moreover have "fst (findClosestVolume detour mount1) =
      Return (volume_prefix @ mount_below_volume_dir, None)"
    and "symlink_resolutions (snd (findClosestVolume detour mount1)) = 1"
    by (simp_all add: detour_result symlink_resolutions_def)
  moreover have "volume_prefix @ mount_below_volume_dir \<noteq>
      ensureVolumePrefix (last [mount_below_volume_dir, volume_9])"
    by (simp add: volume_9_def mount_below_volume_dir_def ensureVolumePrefix_def volume_prefix_def)
  moreover have "length [mount_below_volume_dir, volume_9] = 2" by simp
  ultimately show ?thesis using detour_chain by blast
qed

text \<open>
  C2. Whatever the host answers, \<open>findClosestVolume\<close> returns after at most 256 passes
  through the loop (one metadata query each), and when the first 256 passes all end
  without a result, as on a cycle of links, it returns the failure
  \<open>Failed to find the closest volume\<close> for the path, after exactly 256 passes.
\<close>

theorem findClosestVolume_bounded:
  "lstat_calls (snd (findClosestVolume h path)) \<le> 256 \<and>
   (continues h 256 path \<longrightarrow>
      fst (findClosestVolume h path) = Return ([], Some (ClosestVolumeNotFound path)) \<and>
      lstat_calls (snd (findClosestVolume h path)) = 256)"
  using loop_lstat_bound [of h path 0 path] loop_continues [of h 0 path path]
  by (simp add: findClosestVolume_def)

text \<open>
  C2 on two links that point at each other.
\<close>

theorem findClosestVolume_bounded_witness:
  "continues cyclic 256 link_x \<and>
   fst (findClosestVolume cyclic link_x) = Return ([], Some (ClosestVolumeNotFound link_x)) \<and>
   lstat_calls (snd (findClosestVolume cyclic link_x)) = 256"
  using findClosestVolume_bounded [of cyclic link_x] cyclic_continues [of 256] by simp

text \<open>
  C3 (as amended). An identifier that \<open>findClosestVolume\<close> returns without a drive-letter
  lookup comes from a link target and carries the canonical prefix. An identifier returned
  at the root is the result of \<open>getVolumeForDriveLetter\<close> as it is, the trimmed output of
  the lookup: it is not passed through \<open>ensureVolumePrefix\<close>.
\<close>

theorem findClosestVolume_identifier:
  assumes "fst (findClosestVolume h path) = Return (v, None)"
  shows "(drive_letter_lookups (snd (findClosestVolume h path)) = 0 \<and> prefix volume_prefix v) \<or>
    (\<exists>l. Drive_letter_lookup l \<in> set (snd (findClosestVolume h path)) \<and>
       fst (getVolumeForDriveLetter h l) = (v, None) \<and>
       v = strings_TrimSpace h (out_bytes (powershell h (get_partition_volume_cmd l))))"
  using loop_identifier [of h path 0 path v] assms getVolumeForDriveLetter_value [of h _ v]
  unfolding findClosestVolume_def by blast

text \<open>
  The amended C3 on the two links that end in a volume.
\<close>

theorem findClosestVolume_identifier_witness:
  "fst (findClosestVolume two_hops mount1) = Return (volume_prefix @ volume_9, None) \<and>
   drive_letter_lookups (snd (findClosestVolume two_hops mount1)) = 0 \<and>
   prefix volume_prefix (volume_prefix @ volume_9)"
  using findClosestVolume_identifier [of two_hops mount1 "volume_prefix @ volume_9"]
  by (simp add: two_hops_result drive_letter_lookups_def)

text \<open>
  C3 as stated fails at the root of a drive whose lookup prints the identifier without
  the prefix: the identifier is returned without it.
\<close>

theorem findClosestVolume_root_not_normalized:
  "fst (findClosestVolume bare_root root_c) = Return (volume_a, None) \<and>
   \<not> prefix volume_prefix volume_a \<and>
   fst (getVolumeForDriveLetter bare_root (take 1 root_c)) = (volume_a, None)"
  by (simp add: bare_root_result)
    (simp add: bare_root_def eval_simps)

text \<open>
  C5 (as amended). For a plain path \<open>n\<close> parent levels below a non-empty root, with
  \<open>n \<le> 255\<close> and no link on the way, \<open>findClosestVolume\<close> returns what
  \<open>getVolumeForDriveLetter\<close> returns for the first byte of the root, after exactly
  \<open>n + 1\<close> metadata queries and no symlink resolution.
\<close>

theorem findClosestVolume_plain_climb:
  assumes "plain_climb h p ps" "length ps \<le> 255" "last (p # ps) \<noteq> []"
  shows "fst (findClosestVolume h p) =
      Return (fst (getVolumeForDriveLetter h (take 1 (last (p # ps))))) \<and>
    lstat_calls (snd (findClosestVolume h p)) = length ps + 1 \<and>
    symlink_resolutions (snd (findClosestVolume h p)) = 0"
proof -
  from assms have "findClosestVolume h p =
    (Return (fst (getVolumeForDriveLetter h (take 1 (last (p # ps))))),
     map Lstat_call (p # ps) @ [Drive_letter_lookup (take 1 (last (p # ps)))])"
    unfolding findClosestVolume_def by (intro loop_plain_climb) auto
  then show ?thesis
    by (simp add: lstat_calls_def symlink_resolutions_def o_def)
qed

text \<open>
  The amended C5 on the second scenario of the specification: a file three levels
  below \<open>C:\\<close>.
\<close>

theorem findClosestVolume_plain_climb_witness:
  "plain_climb nested file_txt [nested_dir, data_dir, root_c] \<and>
   length [nested_dir, data_dir, root_c] \<le> 255 \<and>
   last (file_txt # [nested_dir, data_dir, root_c]) \<noteq> [] \<and>
   fst (getVolumeForDriveLetter nested ''C'') = (volume_prefix @ volume_a @ [BS], None) \<and>
   fst (findClosestVolume nested file_txt) = Return (volume_prefix @ volume_a @ [BS], None) \<and>
   lstat_calls (snd (findClosestVolume nested file_txt)) = 4"
proof -
  have root: "last (file_txt # [nested_dir, data_dir, root_c]) \<noteq> []"
    and letter: "take 1 (last (file_txt # [nested_dir, data_dir, root_c])) = ''C''"
    by (simp_all add: root_c_def)
  have len: "length [nested_dir, data_dir, root_c] \<le> 255" by simp
  from findClosestVolume_plain_climb [OF nested_climb len root] root len nested_climb
  show ?thesis unfolding letter by (simp add: nested_lookup)
qed

text \<open>
  C5 as stated fails for a directory 256 levels below the root: the loop ends after 256
  metadata queries, one short of the root, and the iteration-bound failure is returned
  instead of the volume of drive C.
\<close>

theorem findClosestVolume_plain_climb_too_deep:
  "plain_climb deep (deep_path 256) (deep_parents 256) \<and>
   length (deep_parents 256) = 256 \<and>
   last (deep_path 256 # deep_parents 256) = deep_path 0 \<and>
   fst (getVolumeForDriveLetter deep (take 1 (deep_path 0))) =
     (volume_prefix @ volume_a @ [BS], None) \<and>
   fst (findClosestVolume deep (deep_path 256)) =
     Return ([], Some (ClosestVolumeNotFound (deep_path 256))) \<and>
   lstat_calls (snd (findClosestVolume deep (deep_path 256))) = 256"
proof -
  have "continues deep (256 - 0) (deep_path 256)"
    by (rule deep_continues) simp_all
  then have "fst (findClosestVolume_loop deep (deep_path 256) 0 (deep_path 256)) =
      Return ([], Some (ClosestVolumeNotFound (deep_path 256))) \<and>
    lstat_calls (snd (findClosestVolume_loop deep (deep_path 256) 0 (deep_path 256))) = 256 - 0"
    by (rule loop_continues)
  then have walk: "fst (findClosestVolume deep (deep_path 256)) =
      Return ([], Some (ClosestVolumeNotFound (deep_path 256)))"
    "lstat_calls (snd (findClosestVolume deep (deep_path 256))) = 256"
    unfolding findClosestVolume_def by simp_all
  have climb: "plain_climb deep (deep_path 256) (deep_parents 256)"
    by (rule deep_climb) simp
  have len: "length (deep_parents 256) = 256" by (rule deep_parents_length)
  have root: "last (deep_path 256 # deep_parents 256) = deep_path 0" by (rule deep_parents_last)
  from climb len root deep_lookup walk show ?thesis by blast
qed

section \<open>The normalizer and the drive-letter resolver\<close>

text \<open>
  C6 (as amended). \<open>ensureVolumePrefix\<close> is idempotent, it is the identity on every
  string that starts with the canonical prefix, and its result always starts with the
  prefix. The result holds the prefix exactly once if and only if the input, with one
  leading prefix taken off when there is one, neither contains the prefix nor starts with
  backslash, ?, backslash; this is so for \<open>Volume{token}\<close> with or without the prefix
  when the token has no backslash.
\<close>

theorem ensureVolumePrefix_idempotent:
  "ensureVolumePrefix (ensureVolumePrefix s) = ensureVolumePrefix s \<and>
   (prefix volume_prefix s \<longrightarrow> ensureVolumePrefix s = s) \<and>
   prefix volume_prefix (ensureVolumePrefix s) \<and>
   (occurrences volume_prefix (ensureVolumePrefix s) = 1 \<longleftrightarrow>
      occurrences volume_prefix (unprefixed s) = 0 \<and> \<not> prefix [BS, CHR ''?'', BS] (unprefixed s)) \<and>
   (BS \<notin> set tok \<longrightarrow>
      occurrences volume_prefix (ensureVolumePrefix (''Volume{'' @ tok @ ''}'')) = 1 \<and>
      occurrences volume_prefix (ensureVolumePrefix (volume_prefix @ ''Volume{'' @ tok @ ''}'')) = 1)"
proof (intro conjI impI)
  show "ensureVolumePrefix (ensureVolumePrefix s) = ensureVolumePrefix s"
    by (rule ensureVolumePrefix_prefixed) (rule ensureVolumePrefix_has_prefix)
  show "prefix volume_prefix (ensureVolumePrefix s)"
    by (rule ensureVolumePrefix_has_prefix)
  show "occurrences volume_prefix (ensureVolumePrefix s) = 1 \<longleftrightarrow>
      occurrences volume_prefix (unprefixed s) = 0 \<and> \<not> prefix [BS, CHR ''?'', BS] (unprefixed s)"
    unfolding ensureVolumePrefix_unprefixed occurrences_after_prefix by simp
next
  assume "prefix volume_prefix s"
  then show "ensureVolumePrefix s = s" by (rule ensureVolumePrefix_prefixed)
next
  assume tok: "BS \<notin> set tok"
  have "\<not> prefix volume_prefix (''Volume{'' @ tok @ ''}'')"
    by (simp add: volume_prefix_def)
  then have bare: "ensureVolumePrefix (''Volume{'' @ tok @ ''}'') = volume_prefix @ ''Volume{'' @ tok @ ''}''"
    by (simp add: ensureVolumePrefix_def)
  show "occurrences volume_prefix (ensureVolumePrefix (''Volume{'' @ tok @ ''}'')) = 1"
    unfolding bare using tok by (rule occurrences_identifier)
  have full: "ensureVolumePrefix (volume_prefix @ ''Volume{'' @ tok @ ''}'') = volume_prefix @ ''Volume{'' @ tok @ ''}''"
    by (rule ensureVolumePrefix_prefixed) simp
  show "occurrences volume_prefix (ensureVolumePrefix (volume_prefix @ ''Volume{'' @ tok @ ''}'')) = 1"
    unfolding full using tok by (rule occurrences_identifier)
qed

text \<open>
  The amended C6 at a prefixed identifier.
\<close>

theorem ensureVolumePrefix_idempotent_witness:
  "prefix volume_prefix (volume_prefix @ ''Volume{a-1}'') \<and>
   ensureVolumePrefix (volume_prefix @ ''Volume{a-1}'') = volume_prefix @ ''Volume{a-1}'' \<and>
   BS \<notin> set ''a-1'' \<and>
   occurrences volume_prefix (ensureVolumePrefix ''Volume{a-1}'') = 1 \<and>
   occurrences volume_prefix (ensureVolumePrefix (volume_prefix @ ''Volume{a-1}'')) = 1"
  using ensureVolumePrefix_idempotent [of "volume_prefix @ ''Volume{a-1}''" "''a-1''"]
  by (simp add: ensureVolumePrefix_def volume_prefix_def)

text \<open>
  C6 as stated fails for a string that \<open>VolumeRegexp\<close> matches and that starts with the
  prefix twice: it is returned unchanged, with two occurrences of the prefix.
\<close>

theorem ensureVolumePrefix_twice_present:
  "Match VolumeRegexp doubly_prefixed \<and>
   ensureVolumePrefix doubly_prefixed = doubly_prefixed \<and>
   occurrences volume_prefix (ensureVolumePrefix doubly_prefixed) = 2"
  by (simp add: doubly_prefixed_def ensureVolumePrefix_def volume_prefix_def VolumeRegexp_def
      word_or_hyphen_def word_char_def)

text \<open>
  C7. For every path whose length is not one byte, \<open>getVolumeForDriveLetter\<close> returns the
  empty string with the error \<open>not a valid DriverLetter\<close>, and runs no lookup.
\<close>

theorem getVolumeForDriveLetter_length:
  "length path \<noteq> 1 \<Longrightarrow>
     getVolumeForDriveLetter h path = (([], Some (InvalidDriveLetter path)), []) \<and>
     drive_letter_lookups (snd (getVolumeForDriveLetter h path)) = 0"
  by (simp add: getVolumeForDriveLetter_def drive_letter_lookups_def)

text \<open>
  C7 at the two bytes \<open>C:\<close>.
\<close>

theorem getVolumeForDriveLetter_length_witness:
  "length ''C:'' \<noteq> 1 \<and>
   getVolumeForDriveLetter nested ''C:'' = (([], Some (InvalidDriveLetter ''C:'')), []) \<and>
   drive_letter_lookups (snd (getVolumeForDriveLetter nested ''C:'')) = 0"
  using getVolumeForDriveLetter_length [of "''C:''" nested] by (simp add: drive_letter_lookups_def)

section \<open>The public operations\<close>

text \<open>
  C8. Whenever \<open>GetClosestVolumeIDFromTargetPath\<close> returns an error, the string it returns
  with it is empty; the error wraps the error of \<open>findClosestVolume\<close>, which itself returned
  the empty string with it.
\<close>

theorem GetClosestVolumeIDFromTargetPath_all_or_nothing:
  assumes "fst (GetClosestVolumeIDFromTargetPath h targetPath) = Return (v, Some e)"
  shows "v = [] \<and>
    (\<exists>err. e = ClosestVolumeError targetPath err \<and>
       fst (findClosestVolume h targetPath) = Return ([], Some err))"
proof -
  obtain r evs where f: "findClosestVolume h targetPath = (r, evs)" by (metis surj_pair)
  with assms obtain s err where r: "r = Return (s, Some err)"
    and e: "e = ClosestVolumeError targetPath err" and v: "v = []"
    by (auto simp: GetClosestVolumeIDFromTargetPath_def split: outcome.splits option.splits)
  from f r have "fst (findClosestVolume_loop h targetPath 0 targetPath) = Return (s, Some err)"
    by (simp add: findClosestVolume_def)
  then have "s = []" by (rule loop_error_empty)
  with f r e v show ?thesis by simp
qed

text \<open>
  C8 on the cycle of two links, where the iteration bound is the error.
\<close>

theorem GetClosestVolumeIDFromTargetPath_all_or_nothing_witness:
  "fst (GetClosestVolumeIDFromTargetPath cyclic link_x) =
     Return ([], Some (ClosestVolumeError link_x (ClosestVolumeNotFound link_x))) \<and>
   (\<exists>err. ClosestVolumeError link_x (ClosestVolumeNotFound link_x) = ClosestVolumeError link_x err \<and>
      fst (findClosestVolume cyclic link_x) = Return ([], Some err))"
proof -
  have g: "fst (GetClosestVolumeIDFromTargetPath cyclic link_x) =
     Return ([], Some (ClosestVolumeError link_x (ClosestVolumeNotFound link_x)))"
    using cyclic_bound_failure by (rule GetClosestVolumeIDFromTargetPath_error)
  from GetClosestVolumeIDFromTargetPath_all_or_nothing [OF g] g show ?thesis by blast
qed

text \<open>
  C9. \<open>filepath.Dir\<close> is Go's library function, a parameter of the host. The hypothesis
  is that it does not return the empty path for the empty path (Go returns \<open>.\<close>), as
  is the case when it never returns the empty path. Then a path that is its own
  parent is not empty, its slice \<open>[0:1]\<close> has length one, \<open>findClosestVolume\<close> does not
  panic, and it never returns the error of \<open>getVolumeForDriveLetter\<close> for an invalid
  drive letter.
\<close>

theorem findClosestVolume_drive_letter_safe:
  assumes "filepath_Dir h [] \<noteq> []"
  shows "(filepath_Dir h c = c \<longrightarrow> c \<noteq> [] \<and> length (take 1 c) = 1) \<and>
    fst (findClosestVolume h path) \<noteq> Panic \<and>
    (fst (findClosestVolume h path) = Return (v, Some e) \<longrightarrow> \<not> is_InvalidDriveLetter e)"
proof -
  have "c \<noteq> [] \<and> length (take 1 c) = 1" if "filepath_Dir h c = c"
  proof -
    from that assms have "c \<noteq> []" by auto
    then show ?thesis by (cases c) auto
  qed
  with loop_safe [OF assms, of path 0 path] show ?thesis
    by (simp add: findClosestVolume_def)
qed

text \<open>
  C9 at the empty path, on a host where every metadata query succeeds: the walk climbs
  to \<open>.\<close>, which is its own parent, and looks that up as a drive letter.
\<close>

theorem findClosestVolume_drive_letter_safe_witness:
  "filepath_Dir all_plain [] \<noteq> [] \<and>
   filepath_Dir all_plain ''.'' = ''.'' \<and> length (take 1 ''.'') = 1 \<and>
   fst (findClosestVolume all_plain []) \<noteq> Panic \<and>
   fst (findClosestVolume all_plain []) = Return ([], Some (HostError (OsError ''exit status 1''))) \<and>
   \<not> is_InvalidDriveLetter (HostError (OsError ''exit status 1''))"
proof -
  have d: "filepath_Dir all_plain [] \<noteq> []" "filepath_Dir all_plain ''.'' = ''.''"
    by (simp_all add: all_plain_def fs_host_def drive_Dir_def)
  have r: "fst (findClosestVolume all_plain []) =
      Return ([], Some (HostError (OsError ''exit status 1'')))"
    by (simp add: all_plain_empty_path)
  from findClosestVolume_drive_letter_safe [OF d(1), of "''.''" "[]" "[]" "HostError (OsError ''exit status 1'')"]
    d r show ?thesis by simp
qed

text \<open>
  C10. \<open>getTarget\<close>, and with it \<open>GetVolumeIDFromTargetPath\<close>, returns exactly when, after
  finitely many hops from target to target, a run fails or prints nothing, or the trimmed
  output starts with \<open>Volume\<close>. There is no bound on the hops.
\<close>

theorem getTarget_unbounded:
  "((\<exists>r. getTarget h mount = Some r) \<longleftrightarrow>
      (\<exists>n. getTarget_stops h ((next_mount h ^^ n) mount))) \<and>
   ((\<exists>r. GetVolumeIDFromTargetPath h mount = Some r) \<longleftrightarrow>
      (\<exists>n. getTarget_stops h ((next_mount h ^^ n) mount)))"
proof -
  have t: "(\<exists>r. getTarget h mount = Some r) \<longleftrightarrow>
      (\<exists>n. getTarget_stops h ((next_mount h ^^ n) mount))"
    using getTarget_returns_if getTarget_returns_only_if by blast
  have "(\<exists>r. GetVolumeIDFromTargetPath h mount = Some r) \<longleftrightarrow> (\<exists>r. getTarget h mount = Some r)"
    by (auto simp: GetVolumeIDFromTargetPath_def split: option.splits)
  with t show ?thesis by simp
qed

text \<open>
  C10 on the cycle of two links: no hop ever stops, \<open>getTarget\<close> and
  \<open>GetVolumeIDFromTargetPath\<close> do not return, while \<open>GetClosestVolumeIDFromTargetPath\<close>
  returns the iteration-bound failure.
\<close>

theorem getTarget_unbounded_witness:
  "(\<forall>n. \<not> getTarget_stops cyclic ((next_mount cyclic ^^ n) link_x)) \<and>
   getTarget cyclic link_x = None \<and>
   GetVolumeIDFromTargetPath cyclic link_x = None \<and>
   fst (GetClosestVolumeIDFromTargetPath cyclic link_x) =
     Return ([], Some (ClosestVolumeError link_x (ClosestVolumeNotFound link_x)))"
proof -
  have never: "\<forall>n. \<not> getTarget_stops cyclic ((next_mount cyclic ^^ n) link_x)"
    using cyclic_never_stops by blast
  with getTarget_unbounded [of cyclic link_x]
  have "\<not> (\<exists>r. getTarget cyclic link_x = Some r)"
    and "\<not> (\<exists>r. GetVolumeIDFromTargetPath cyclic link_x = Some r)"
    by blast+
  then have "getTarget cyclic link_x = None" "GetVolumeIDFromTargetPath cyclic link_x = None"
    by (simp_all only: not_ex not_Some_eq)
  moreover have "fst (GetClosestVolumeIDFromTargetPath cyclic link_x) =
     Return ([], Some (ClosestVolumeError link_x (ClosestVolumeNotFound link_x)))"
    using cyclic_bound_failure by (rule GetClosestVolumeIDFromTargetPath_error)
  ultimately show ?thesis using never by blast
qed

end
